theory Spec2Isabelle
  imports Main
begin

section \<open>The migration optimizer of django/db/migrations/optimizer.py\<close>

subsection \<open>Names and case folding\<close>

text \<open>
  Names are Python strings, here \<open>string\<close>. \<open>lower\<close> is \<open>str.lower()\<close> on
  ASCII: the letters \<open>A\<close> to \<open>Z\<close> move to \<open>a\<close> to \<open>z\<close>, every other character
  stays.
\<close>

definition lower_char :: "char \<Rightarrow> char" where
  "lower_char ch =
     (case map_of (zip ''ABCDEFGHIJKLMNOPQRSTUVWXYZ'' ''abcdefghijklmnopqrstuvwxyz'') ch of
        Some l \<Rightarrow> l
      | None \<Rightarrow> ch)"

definition lower :: "string \<Rightarrow> string" where
  "lower s = map lower_char s"

subsection \<open>Operations\<close>

text \<open>
  Modelled from the spec: the operation classes of \<open>django.db.migrations\<close> are not part
  of the source file; the optimizer only imports them. Section 3 of the specification
  gives their attributes, and equality of operations is structural. \<open>'f\<close> is the type
  of field definitions, \<open>'p\<close> the type of every attribute the optimizer never inspects
  (options, bases, the table of an AlterModelTable, ...). \<open>OtherOperation\<close> stands for
  every operation class outside the rule table, such as RunSQL or RunPython.
  A selector applied to an operation that lacks the attribute is unspecified; Python
  would raise AttributeError there.
\<close>

datatype ('f, 'p) operation =
    CreateModel (name: string) (fields: "(string \<times> 'f) list") (options: 'p) (bases: "'p list")
  | DeleteModel (name: string)
  | AlterModelTable (name: string) (payload: 'p)
  | AlterUniqueTogether (name: string) (payload: 'p)
  | AlterIndexTogether (name: string) (payload: 'p)
  | RenameModel (old_name: string) (new_name: string)
  | AddField (model_name: string) (name: string) (field: 'f)
  | AlterField (model_name: string) (name: string) (field: 'f)
  | RemoveField (model_name: string) (name: string)
  | RenameField (model_name: string) (old_name: string) (new_name: string)
  | OtherOperation (payload: 'p)

text \<open>The classes the optimizer tests with \<open>isinstance\<close>; no class derives from another.\<close>

datatype operation_class =
    CreateModel_class | DeleteModel_class | AlterModelTable_class
  | AlterUniqueTogether_class | AlterIndexTogether_class | RenameModel_class
  | AddField_class | AlterField_class | RemoveField_class | RenameField_class
  | OtherOperation_class

fun class_of :: "('f, 'p) operation \<Rightarrow> operation_class" where
  "class_of (CreateModel _ _ _ _) = CreateModel_class"
| "class_of (DeleteModel _) = DeleteModel_class"
| "class_of (AlterModelTable _ _) = AlterModelTable_class"
| "class_of (AlterUniqueTogether _ _) = AlterUniqueTogether_class"
| "class_of (AlterIndexTogether _ _) = AlterIndexTogether_class"
| "class_of (RenameModel _ _) = RenameModel_class"
| "class_of (AddField _ _ _) = AddField_class"
| "class_of (AlterField _ _ _) = AlterField_class"
| "class_of (RemoveField _ _) = RemoveField_class"
| "class_of (RenameField _ _ _) = RenameField_class"
| "class_of (OtherOperation _) = OtherOperation_class"

definition isinstance :: "('f, 'p) operation \<Rightarrow> operation_class \<Rightarrow> bool" where
  "isinstance operation cls = (class_of operation = cls)"

definition isinstance_tuple :: "('f, 'p) operation \<Rightarrow> operation_class list \<Rightarrow> bool" where
  "isinstance_tuple operation classes = (class_of operation \<in> set classes)"

text \<open>
  The capability interface every operation implements outside the optimizer:
  \<open>other.references_model(name, app_label)\<close> and
  \<open>other.references_field(model_name, name, app_label)\<close>. Both are parameters here.
\<close>

datatype ('f, 'p) capabilities =
  Capabilities
    (references_model: "('f, 'p) operation \<Rightarrow> string \<Rightarrow> string option \<Rightarrow> bool")
    (references_field: "('f, 'p) operation \<Rightarrow> string \<Rightarrow> string \<Rightarrow> string option \<Rightarrow> bool")

subsection \<open>Reduction\<close>

text \<open>
  Every \<open>reduce_*\<close> method returns a list, or falls off its end and so returns
  Python's \<open>None\<close>: \<open>Some ops\<close> and \<open>None\<close> here.
\<close>

definition reduce_model_create_delete ::
  "('f, 'p) operation \<Rightarrow> ('f, 'p) operation \<Rightarrow> ('f, 'p) operation list option" where
  "reduce_model_create_delete operation other =
     (if lower (name operation) = lower (name other) then Some [] else None)"

definition reduce_model_alter_delete ::
  "('f, 'p) operation \<Rightarrow> ('f, 'p) operation \<Rightarrow> ('f, 'p) operation list option" where
  "reduce_model_alter_delete operation other =
     (if lower (name operation) = lower (name other) then Some [other] else None)"

definition reduce_model_create_rename ::
  "('f, 'p) operation \<Rightarrow> ('f, 'p) operation \<Rightarrow> ('f, 'p) operation list option" where
  "reduce_model_create_rename operation other =
     (if lower (name operation) = lower (old_name other)
      then Some [CreateModel (new_name other) (fields operation) (options operation)
                   (bases operation)]
      else None)"

definition reduce_model_rename_self ::
  "('f, 'p) operation \<Rightarrow> ('f, 'p) operation \<Rightarrow> ('f, 'p) operation list option" where
  "reduce_model_rename_self operation other =
     (if lower (new_name operation) = lower (old_name other)
      then Some [RenameModel (old_name operation) (new_name other)]
      else None)"

definition reduce_create_model_add_field ::
  "('f, 'p) operation \<Rightarrow> ('f, 'p) operation \<Rightarrow> ('f, 'p) operation list option" where
  "reduce_create_model_add_field operation other =
     (if lower (name operation) = lower (model_name other)
      then Some [CreateModel (name operation)
                   (fields operation @ [(name other, field other)])
                   (options operation) (bases operation)]
      else None)"

definition reduce_create_model_alter_field ::
  "('f, 'p) operation \<Rightarrow> ('f, 'p) operation \<Rightarrow> ('f, 'p) operation list option" where
  "reduce_create_model_alter_field operation other =
     (if lower (name operation) = lower (model_name other)
      then Some [CreateModel (name operation)
                   (map (\<lambda>(n, v). (n, if n = name other then field other else v))
                      (fields operation))
                   (options operation) (bases operation)]
      else None)"

definition reduce_create_model_rename_field ::
  "('f, 'p) operation \<Rightarrow> ('f, 'p) operation \<Rightarrow> ('f, 'p) operation list option" where
  "reduce_create_model_rename_field operation other =
     (if lower (name operation) = lower (model_name other)
      then Some [CreateModel (name operation)
                   (map (\<lambda>(n, v). (if n = old_name other then new_name other else n, v))
                      (fields operation))
                   (options operation) (bases operation)]
      else None)"

definition reduce_create_model_remove_field ::
  "('f, 'p) operation \<Rightarrow> ('f, 'p) operation \<Rightarrow> ('f, 'p) operation list option" where
  "reduce_create_model_remove_field operation other =
     (if lower (name operation) = lower (model_name other)
      then Some [CreateModel (name operation)
                   (filter (\<lambda>(n, v). lower n \<noteq> lower (name other)) (fields operation))
                   (options operation) (bases operation)]
      else None)"

definition reduce_add_field_alter_field ::
  "('f, 'p) operation \<Rightarrow> ('f, 'p) operation \<Rightarrow> ('f, 'p) operation list option" where
  "reduce_add_field_alter_field operation other =
     (if lower (model_name operation) = lower (model_name other)
         \<and> lower (name operation) = lower (name other)
      then Some [AddField (model_name operation) (name operation) (field other)]
      else None)"

definition reduce_add_field_delete_field ::
  "('f, 'p) operation \<Rightarrow> ('f, 'p) operation \<Rightarrow> ('f, 'p) operation list option" where
  "reduce_add_field_delete_field operation other =
     (if lower (model_name operation) = lower (model_name other)
         \<and> lower (name operation) = lower (name other)
      then Some [] else None)"

definition reduce_alter_field_delete_field ::
  "('f, 'p) operation \<Rightarrow> ('f, 'p) operation \<Rightarrow> ('f, 'p) operation list option" where
  "reduce_alter_field_delete_field operation other =
     (if lower (model_name operation) = lower (model_name other)
         \<and> lower (name operation) = lower (name other)
      then Some [other] else None)"

definition reduce_add_field_rename_field ::
  "('f, 'p) operation \<Rightarrow> ('f, 'p) operation \<Rightarrow> ('f, 'p) operation list option" where
  "reduce_add_field_rename_field operation other =
     (if lower (model_name operation) = lower (model_name other)
         \<and> lower (name operation) = lower (old_name other)
      then Some [AddField (model_name operation) (new_name other) (field operation)]
      else None)"

definition reduce_alter_field_rename_field ::
  "('f, 'p) operation \<Rightarrow> ('f, 'p) operation \<Rightarrow> ('f, 'p) operation list option" where
  "reduce_alter_field_rename_field operation other =
     (if lower (model_name operation) = lower (model_name other)
         \<and> lower (name operation) = lower (old_name other)
      then Some [other,
                 AlterField (model_name operation) (new_name other) (field operation)]
      else None)"

definition reduce_rename_field_self ::
  "('f, 'p) operation \<Rightarrow> ('f, 'p) operation \<Rightarrow> ('f, 'p) operation list option" where
  "reduce_rename_field_self operation other =
     (if lower (model_name operation) = lower (model_name other)
         \<and> lower (new_name operation) = lower (old_name other)
      then Some [RenameField (model_name operation) (old_name operation) (new_name other)]
      else None)"

text \<open>The table \<open>submethods\<close> of \<open>reduce\<close>, in the order of the source.\<close>

definition submethods ::
  "(operation_class \<times> operation_class \<times>
    (('f, 'p) operation \<Rightarrow> ('f, 'p) operation \<Rightarrow> ('f, 'p) operation list option)) list" where
  "submethods =
     [(CreateModel_class, DeleteModel_class, reduce_model_create_delete),
      (AlterModelTable_class, DeleteModel_class, reduce_model_alter_delete),
      (AlterUniqueTogether_class, DeleteModel_class, reduce_model_alter_delete),
      (AlterIndexTogether_class, DeleteModel_class, reduce_model_alter_delete),
      (CreateModel_class, RenameModel_class, reduce_model_create_rename),
      (RenameModel_class, RenameModel_class, reduce_model_rename_self),
      (CreateModel_class, AddField_class, reduce_create_model_add_field),
      (CreateModel_class, AlterField_class, reduce_create_model_alter_field),
      (CreateModel_class, RemoveField_class, reduce_create_model_remove_field),
      (AddField_class, AlterField_class, reduce_add_field_alter_field),
      (AddField_class, RemoveField_class, reduce_add_field_delete_field),
      (AlterField_class, RemoveField_class, reduce_alter_field_delete_field),
      (AddField_class, RenameField_class, reduce_add_field_rename_field),
      (AlterField_class, RenameField_class, reduce_alter_field_rename_field),
      (CreateModel_class, RenameField_class, reduce_create_model_rename_field),
      (RenameField_class, RenameField_class, reduce_rename_field_self)]"

text \<open>The loop of \<open>reduce\<close> over the table: the first entry whose classes fit decides.\<close>

fun reduce_loop ::
  "(operation_class \<times> operation_class \<times>
    (('f, 'p) operation \<Rightarrow> ('f, 'p) operation \<Rightarrow> ('f, 'p) operation list option)) list \<Rightarrow>
   ('f, 'p) operation \<Rightarrow> ('f, 'p) operation \<Rightarrow> ('f, 'p) operation list option" where
  "reduce_loop [] operation other = None"
| "reduce_loop ((ia, ib, om) # rest) operation other =
     (if isinstance operation ia \<and> isinstance other ib then om operation other
      else reduce_loop rest operation other)"

definition reduce ::
  "('f, 'p) operation \<Rightarrow> ('f, 'p) operation \<Rightarrow> ('f, 'p) operation list option" where
  "reduce operation other = reduce_loop submethods operation other"

subsection \<open>Through checks\<close>

definition MODEL_LEVEL_OPERATIONS :: "operation_class list" where
  "MODEL_LEVEL_OPERATIONS =
     [CreateModel_class, AlterModelTable_class, AlterUniqueTogether_class,
      AlterIndexTogether_class]"

definition FIELD_LEVEL_OPERATIONS :: "operation_class list" where
  "FIELD_LEVEL_OPERATIONS = [AddField_class, AlterField_class]"

definition can_optimize_through ::
  "('f, 'p) capabilities \<Rightarrow> ('f, 'p) operation \<Rightarrow> ('f, 'p) operation \<Rightarrow> string option \<Rightarrow> bool"
  where
  "can_optimize_through caps operation other app_label =
     (if isinstance_tuple operation MODEL_LEVEL_OPERATIONS
         \<and> \<not> references_model caps other (name operation) app_label
      then True
      else if isinstance_tuple operation FIELD_LEVEL_OPERATIONS
         \<and> \<not> references_field caps other (model_name operation) (name operation) app_label
      then True
      else False)"

subsection \<open>The driver\<close>

text \<open>Python's slice \<open>xs[a:b]\<close> for indices that are not negative.\<close>

definition slice :: "nat \<Rightarrow> nat \<Rightarrow> 'a list \<Rightarrow> 'a list" where
  "slice a b xs = drop a (take b xs)"

text \<open>
  The inner \<open>for j, other in enumerate(operations[i + 1:])\<close> of \<open>optimize_inner\<close> ends
  in one of three ways: a reduction at \<open>j\<close>, the \<open>break\<close> at an operation that cannot
  be optimized through, or the \<open>else\<close> of the loop when the slice is used up.
\<close>

datatype ('f, 'p) scan_result =
    Matched nat "('f, 'p) operation list"
  | Barrier
  | Exhausted

fun scan ::
  "('f, 'p) capabilities \<Rightarrow> string option \<Rightarrow> ('f, 'p) operation \<Rightarrow>
   ('f, 'p) operation list \<Rightarrow> nat \<Rightarrow> ('f, 'p) scan_result" where
  "scan caps app_label operation [] j = Exhausted"
| "scan caps app_label operation (other # rest) j =
     (case reduce operation other of
        Some result \<Rightarrow> Matched j result
      | None \<Rightarrow>
          if \<not> can_optimize_through caps operation other app_label then Barrier
          else scan caps app_label operation rest (j + 1))"

text \<open>
  The outer \<open>for i, operation in enumerate(operations)\<close>, with the list
  \<open>new_operations\<close> built so far.
\<close>

function optimize_inner_from ::
  "('f, 'p) capabilities \<Rightarrow> ('f, 'p) operation list \<Rightarrow> string option \<Rightarrow> nat \<Rightarrow>
   ('f, 'p) operation list \<Rightarrow> ('f, 'p) operation list" where
  "optimize_inner_from caps operations app_label i new_operations =
     (if i < length operations then
        (case scan caps app_label (operations ! i) (drop (i + 1) operations) 0 of
           Matched j result \<Rightarrow>
             new_operations @ result @ slice (i + 1) (i + 1 + j) operations
               @ drop (i + j + 2) operations
         | Barrier \<Rightarrow>
             optimize_inner_from caps operations app_label (i + 1)
               (new_operations @ [operations ! i])
         | Exhausted \<Rightarrow>
             optimize_inner_from caps operations app_label (i + 1)
               (new_operations @ [operations ! i]))
      else new_operations)"
  by pat_completeness auto
termination
  by (relation "measure (\<lambda>(caps, operations, app_label, i, new_operations).
        length operations - i)") auto

definition optimize_inner ::
  "('f, 'p) capabilities \<Rightarrow> ('f, 'p) operation list \<Rightarrow> string option \<Rightarrow>
   ('f, 'p) operation list" where
  "optimize_inner caps operations app_label =
     optimize_inner_from caps operations app_label 0 []"

text \<open>
  \<open>optimize\<close>: the \<open>while True\<close> loop, with the counter \<open>self._iterations\<close> threaded
  through and returned beside the result. The loop has no bound of its own, so it is a
  partial function: \<open>None\<close> is a run that never returns.
\<close>

partial_function (option) optimize_loop ::
  "('f, 'p) capabilities \<Rightarrow> ('f, 'p) operation list \<Rightarrow> string option \<Rightarrow> nat \<Rightarrow>
   (('f, 'p) operation list \<times> nat) option" where
  "optimize_loop caps operations app_label iterations =
     (let result = optimize_inner caps operations app_label in
      if result = operations then Some (result, iterations + 1)
      else optimize_loop caps result app_label (iterations + 1))"

definition optimize ::
  "('f, 'p) capabilities \<Rightarrow> ('f, 'p) operation list \<Rightarrow> string option \<Rightarrow>
   (('f, 'p) operation list \<times> nat) option" where
  "optimize caps operations app_label = optimize_loop caps operations app_label 0"

subsection \<open>A measure for the passes\<close>

text \<open>
  The number of pairs of positions with an AlterField before a RenameField. It is no
  part of the optimizer: the proofs use it to bound the passes that keep the length.
\<close>

fun alter_rename_pairs :: "('f, 'p) operation list \<Rightarrow> nat" where
  "alter_rename_pairs [] = 0"
| "alter_rename_pairs (x # xs) =
     (if class_of x = AlterField_class
      then length (filter (\<lambda>y. class_of y = RenameField_class) xs) else 0)
     + alter_rename_pairs xs"

section \<open>Properties\<close>

subsection \<open>Reduction\<close>

lemmas reduce_defs =
  reduce_model_create_delete_def reduce_model_alter_delete_def
  reduce_model_create_rename_def reduce_model_rename_self_def
  reduce_create_model_add_field_def reduce_create_model_alter_field_def
  reduce_create_model_rename_field_def reduce_create_model_remove_field_def
  reduce_add_field_alter_field_def reduce_add_field_delete_field_def
  reduce_alter_field_delete_field_def reduce_add_field_rename_field_def
  reduce_alter_field_rename_field_def reduce_rename_field_self_def

lemma reduce_two:
  "reduce a b = Some rs \<Longrightarrow> length rs \<le> 2 \<and>
    (length rs = 2 \<longrightarrow> class_of a = AlterField_class \<and> class_of b = RenameField_class
        \<and> rs = [b, AlterField (model_name a) (new_name b) (field a)])"
  unfolding reduce_def submethods_def
  by (cases a; cases b; simp add: isinstance_def reduce_defs split: if_splits; auto)

subsection \<open>The forward scan\<close>

lemma scan_Matched:
  "scan caps al operation rest j0 = Matched j result \<Longrightarrow>
     j0 \<le> j \<and> j - j0 < length rest \<and> reduce operation (rest ! (j - j0)) = Some result
     \<and> (\<forall>k < j - j0. reduce operation (rest ! k) = None
            \<and> can_optimize_through caps operation (rest ! k) al)"
proof (induction rest arbitrary: j0)
  case Nil
  then show ?case by simp
next
  case (Cons other rest)
  show ?case
  proof (cases "reduce operation other")
    case (Some r)
    with Cons.prems show ?thesis by simp
  next
    case None
    with Cons.prems have ct: "can_optimize_through caps operation other al"
      and sc: "scan caps al operation rest (j0 + 1) = Matched j result"
      by (auto split: if_splits)
    from Cons.IH[OF sc] have ih: "j0 + 1 \<le> j" "j - (j0 + 1) < length rest"
      "reduce operation (rest ! (j - (j0 + 1))) = Some result"
      "\<forall>k < j - (j0 + 1). reduce operation (rest ! k) = None
            \<and> can_optimize_through caps operation (rest ! k) al" by auto
    from ih(1) obtain d where d: "j - j0 = Suc d" "j - (j0 + 1) = d"
      by (metis Suc_diff_le Suc_eq_plus1 diff_Suc_eq_diff_pred diff_Suc_1)
    show ?thesis using ih None ct unfolding d
      by (auto simp: less_Suc_eq_0_disj)
  qed
qed

lemma scan_first_match:
  assumes "d < length rest" "reduce operation (rest ! d) = Some result"
    "\<forall>k < d. reduce operation (rest ! k) = None
            \<and> can_optimize_through caps operation (rest ! k) al"
  shows "scan caps al operation rest j0 = Matched (j0 + d) result"
  using assms
proof (induction rest arbitrary: j0 d)
  case Nil
  then show ?case by simp
next
  case (Cons other rest)
  show ?case
  proof (cases d)
    case 0
    with Cons.prems show ?thesis by simp
  next
    case (Suc d')
    from Cons.prems Suc have h0: "reduce operation other = None"
      "can_optimize_through caps operation other al" by auto
    from Cons.prems Suc have "d' < length rest" "reduce operation (rest ! d') = Some result"
      "\<forall>k < d'. reduce operation (rest ! k) = None
            \<and> can_optimize_through caps operation (rest ! k) al" by auto
    from Cons.IH[OF this, of "j0 + 1"] h0 Suc show ?thesis by simp
  qed
qed

subsection \<open>One pass\<close>

lemma slice_same: "slice a a xs = []"
  by (simp add: slice_def)

lemma slice_Cons: "i < k \<Longrightarrow> k \<le> length xs \<Longrightarrow> slice i k xs = xs ! i # slice (Suc i) k xs"
proof -
  assume a: "i < k" "k \<le> length xs"
  then have "i < length (take k xs)" by simp
  from Cons_nth_drop_Suc[OF this] a show ?thesis by (simp add: slice_def)
qed

lemma split_two:
  assumes "i < j" "j < length xs"
  shows "xs = take i xs @ xs ! i # slice (Suc i) j xs @ xs ! j # drop (Suc j) xs"
proof -
  have a: "xs = take j xs @ xs ! j # drop (Suc j) xs"
    using assms by (simp add: id_take_nth_drop[symmetric])
  have "take j xs = take i (take j xs) @ (take j xs) ! i # drop (Suc i) (take j xs)"
    using assms by (intro id_take_nth_drop) simp
  then have b: "take j xs = take i xs @ xs ! i # slice (Suc i) j xs"
    using assms by (simp add: slice_def min_def)
  show ?thesis using a b by (metis append.assoc append_Cons)
qed

lemma inner_from_shape:
  "optimize_inner_from caps ops al i new = new @ drop i ops \<or>
   (\<exists>k j r. i \<le> k \<and> k < j \<and> j < length ops \<and> reduce (ops ! k) (ops ! j) = Some r \<and>
      optimize_inner_from caps ops al i new =
        new @ slice i k ops @ r @ slice (Suc k) j ops @ drop (Suc j) ops)"
proof (induction caps ops al i new rule: optimize_inner_from.induct)
  case (1 caps ops al i new)
  show ?case
  proof (cases "i < length ops")
    case False
    then show ?thesis by simp
  next
    case True
    show ?thesis
    proof (cases "scan caps al (ops ! i) (drop (i + 1) ops) 0")
      case (Matched j r)
      from scan_Matched[OF Matched] have j: "j < length ops - Suc i"
        and r: "reduce (ops ! i) (ops ! (Suc i + j)) = Some r" by auto
      have "optimize_inner_from caps ops al i new =
         new @ slice i i ops @ r @ slice (Suc i) (Suc i + j) ops @ drop (Suc (Suc i + j)) ops"
        using True Matched by (simp add: slice_same add.commute)
      with j r show ?thesis
        by (intro disjI2 exI[of _ i] exI[of _ "Suc i + j"] exI[of _ r]) auto
    next
      case Barrier
      have eq: "optimize_inner_from caps ops al i new =
         optimize_inner_from caps ops al (i + 1) (new @ [ops ! i])"
        using True Barrier by simp
      from "1.IH"(1)[OF True Barrier] show ?thesis
      proof
        assume "optimize_inner_from caps ops al (i + 1) (new @ [ops ! i])
           = (new @ [ops ! i]) @ drop (i + 1) ops"
        with eq True show ?thesis by (simp add: Cons_nth_drop_Suc)
      next
        assume "\<exists>k j r. i + 1 \<le> k \<and> k < j \<and> j < length ops \<and>
           reduce (ops ! k) (ops ! j) = Some r \<and>
           optimize_inner_from caps ops al (i + 1) (new @ [ops ! i]) =
            (new @ [ops ! i]) @ slice (i + 1) k ops @ r @ slice (Suc k) j ops @ drop (Suc j) ops"
        then obtain k j r where h: "i + 1 \<le> k" "k < j" "j < length ops"
           "reduce (ops ! k) (ops ! j) = Some r"
           "optimize_inner_from caps ops al (i + 1) (new @ [ops ! i]) =
            (new @ [ops ! i]) @ slice (i + 1) k ops @ r @ slice (Suc k) j ops @ drop (Suc j) ops"
          by blast
        have "slice i k ops = ops ! i # slice (i + 1) k ops"
          using h by (simp add: slice_Cons)
        with h eq show ?thesis
          by (intro disjI2 exI[of _ k] exI[of _ j] exI[of _ r]) auto
      qed
    next
      case Exhausted
      have eq: "optimize_inner_from caps ops al i new =
         optimize_inner_from caps ops al (i + 1) (new @ [ops ! i])"
        using True Exhausted by simp
      from "1.IH"(2)[OF True Exhausted] show ?thesis
      proof
        assume "optimize_inner_from caps ops al (i + 1) (new @ [ops ! i])
           = (new @ [ops ! i]) @ drop (i + 1) ops"
        with eq True show ?thesis by (simp add: Cons_nth_drop_Suc)
      next
        assume "\<exists>k j r. i + 1 \<le> k \<and> k < j \<and> j < length ops \<and>
           reduce (ops ! k) (ops ! j) = Some r \<and>
           optimize_inner_from caps ops al (i + 1) (new @ [ops ! i]) =
            (new @ [ops ! i]) @ slice (i + 1) k ops @ r @ slice (Suc k) j ops @ drop (Suc j) ops"
        then obtain k j r where h: "i + 1 \<le> k" "k < j" "j < length ops"
           "reduce (ops ! k) (ops ! j) = Some r"
           "optimize_inner_from caps ops al (i + 1) (new @ [ops ! i]) =
            (new @ [ops ! i]) @ slice (i + 1) k ops @ r @ slice (Suc k) j ops @ drop (Suc j) ops"
          by blast
        have "slice i k ops = ops ! i # slice (i + 1) k ops"
          using h by (simp add: slice_Cons)
        with h eq show ?thesis
          by (intro disjI2 exI[of _ k] exI[of _ j] exI[of _ r]) auto
      qed
    qed
  qed
qed

lemma inner_from_first:
  assumes "k < length ops"
    and "scan caps al (ops ! k) (drop (k + 1) ops) 0 = Matched j r"
    and "\<forall>k'. i \<le> k' \<and> k' < k \<longrightarrow>
           (\<forall>j' r'. scan caps al (ops ! k') (drop (k' + 1) ops) 0 \<noteq> Matched j' r')"
    and "i \<le> k"
  shows "optimize_inner_from caps ops al i new =
           new @ slice i k ops @ r @ slice (k + 1) (k + 1 + j) ops @ drop (k + j + 2) ops"
  using assms
proof (induction caps ops al i new rule: optimize_inner_from.induct)
  case (1 caps ops al i new)
  show ?case
  proof (cases "i = k")
    case True
    with "1.prems" show ?thesis by (simp add: slice_same)
  next
    case False
    with "1.prems" have lt: "i < k" "i < length ops" by auto
    with "1.prems" have nm: "\<And>j' r'. scan caps al (ops ! i) (drop (i + 1) ops) 0 \<noteq> Matched j' r'"
      by auto
    have sl: "slice i k ops = ops ! i # slice (i + 1) k ops"
      using lt "1.prems" by (simp add: slice_Cons)
    have rest: "\<forall>k'. i + 1 \<le> k' \<and> k' < k \<longrightarrow>
           (\<forall>j' r'. scan caps al (ops ! k') (drop (k' + 1) ops) 0 \<noteq> Matched j' r')"
      using "1.prems" by auto
    show ?thesis
    proof (cases "scan caps al (ops ! i) (drop (i + 1) ops) 0")
      case (Matched j' r')
      with nm show ?thesis by blast
    next
      case Barrier
      from "1.IH"(1)[OF lt(2) Barrier "1.prems"(1,2) rest] lt
      have "optimize_inner_from caps ops al (i + 1) (new @ [ops ! i]) =
          (new @ [ops ! i]) @ slice (i + 1) k ops @ r @ slice (k + 1) (k + 1 + j) ops
             @ drop (k + j + 2) ops" by simp
      with Barrier lt sl show ?thesis by simp
    next
      case Exhausted
      from "1.IH"(2)[OF lt(2) Exhausted "1.prems"(1,2) rest] lt
      have "optimize_inner_from caps ops al (i + 1) (new @ [ops ! i]) =
          (new @ [ops ! i]) @ slice (i + 1) k ops @ r @ slice (k + 1) (k + 1 + j) ops
             @ drop (k + j + 2) ops" by simp
      with Exhausted lt sl show ?thesis by simp
    qed
  qed
qed

subsection \<open>Every pass that changes the list decreases the measure\<close>

lemma alter_rename_pairs_append:
  "alter_rename_pairs (xs @ ys) =
     alter_rename_pairs xs + alter_rename_pairs ys
     + length (filter (\<lambda>x. class_of x = AlterField_class) xs)
       * length (filter (\<lambda>y. class_of y = RenameField_class) ys)"
  by (induction xs) (auto simp: algebra_simps)

lemma swap_decreases:
  assumes "class_of a = AlterField_class" "class_of a' = AlterField_class"
    "class_of b = RenameField_class"
  shows "alter_rename_pairs (P @ b # a' # B @ S) < alter_rename_pairs (P @ a # B @ b # S)"
  using assms by (simp add: alter_rename_pairs_append algebra_simps)

lemma pass_decreases:
  assumes "optimize_inner caps ops al \<noteq> ops"
  shows "length (optimize_inner caps ops al) < length ops \<or>
     (length (optimize_inner caps ops al) = length ops \<and>
      alter_rename_pairs (optimize_inner caps ops al) < alter_rename_pairs ops)"
proof -
  from inner_from_shape[of caps ops al 0 "[]"] assms
  obtain k j r where h: "k < j" "j < length ops" "reduce (ops ! k) (ops ! j) = Some r"
    "optimize_inner caps ops al = take k ops @ r @ slice (Suc k) j ops @ drop (Suc j) ops"
    by (auto simp: optimize_inner_def slice_def)
  let ?P = "take k ops" and ?B = "slice (Suc k) j ops" and ?S = "drop (Suc j) ops"
  have ops: "ops = ?P @ ops ! k # ?B @ ops ! j # ?S"
    using split_two[OF h(1,2)] .
  have len: "length ops = length ?P + length ?B + length ?S + 2"
    by (subst ops) simp
  have lenr: "length (optimize_inner caps ops al) = length ?P + length r + length ?B + length ?S"
    by (simp add: h(4))
  from reduce_two[OF h(3)] have r2: "length r \<le> 2"
    and sw: "length r = 2 \<Longrightarrow> class_of (ops ! k) = AlterField_class \<and>
        class_of (ops ! j) = RenameField_class \<and>
        r = [ops ! j, AlterField (model_name (ops ! k)) (new_name (ops ! j)) (field (ops ! k))]"
    by auto
  show ?thesis
  proof (cases "length r = 2")
    case False
    with r2 len lenr show ?thesis by arith
  next
    case True
    from sw[OF True] have c: "class_of (ops ! k) = AlterField_class"
      "class_of (ops ! j) = RenameField_class"
      and r: "r = [ops ! j, AlterField (model_name (ops ! k)) (new_name (ops ! j)) (field (ops ! k))]"
      by auto
    let ?a' = "AlterField (model_name (ops ! k)) (new_name (ops ! j)) (field (ops ! k))"
    have "alter_rename_pairs (?P @ ops ! j # ?a' # ?B @ ?S)
        < alter_rename_pairs (?P @ ops ! k # ?B @ ops ! j # ?S)"
      by (rule swap_decreases) (simp_all add: c)
    then have "alter_rename_pairs (optimize_inner caps ops al) < alter_rename_pairs ops"
      using ops by (simp add: h(4) r)
    moreover have "length (optimize_inner caps ops al) = length ops"
      using True len lenr by linarith
    ultimately show ?thesis by blast
  qed
qed

subsection \<open>The loop of passes\<close>

lemma optimize_loop_total:
  "\<exists>n. optimize_loop caps ops al it =
          Some (((\<lambda>xs. optimize_inner caps xs al) ^^ n) ops, it + Suc n)
     \<and> optimize_inner caps (((\<lambda>xs. optimize_inner caps xs al) ^^ n) ops) al
          = ((\<lambda>xs. optimize_inner caps xs al) ^^ n) ops
     \<and> length (((\<lambda>xs. optimize_inner caps xs al) ^^ n) ops) \<le> length ops"
proof (induction ops arbitrary: it
    rule: wf_induct_rule[OF wf_measures[of "[length, alter_rename_pairs]"]])
  case (1 ops)
  let ?pass = "\<lambda>xs. optimize_inner caps xs al"
  show ?case
  proof (cases "?pass ops = ops")
    case True
    then have "optimize_loop caps ops al it = Some ((?pass ^^ 0) ops, it + Suc 0)"
      by (subst optimize_loop.simps) simp
    with True show ?thesis by (intro exI[of _ 0]) simp
  next
    case False
    from pass_decreases[OF False] have "(?pass ops, ops) \<in> measures [length, alter_rename_pairs]"
      by auto
    from "1.IH"[OF this, of "it + 1"] obtain n where
      n: "optimize_loop caps (?pass ops) al (it + 1) = Some ((?pass ^^ n) (?pass ops), it + 1 + Suc n)"
         "?pass ((?pass ^^ n) (?pass ops)) = (?pass ^^ n) (?pass ops)"
         "length ((?pass ^^ n) (?pass ops)) \<le> length (?pass ops)"
      by blast
    have sw: "(?pass ^^ n) (?pass ops) = (?pass ^^ Suc n) ops"
      using funpow_swap1[of ?pass n ops] by simp
    have "optimize_loop caps ops al it = optimize_loop caps (?pass ops) al (it + 1)"
      using False by (subst optimize_loop.simps) simp
    with n(1) have a: "optimize_loop caps ops al it = Some ((?pass ^^ Suc n) ops, it + Suc (Suc n))"
      unfolding sw by simp
    from pass_decreases[OF False] have "length (?pass ops) \<le> length ops" by auto
    with n(3) have c: "length ((?pass ^^ Suc n) ops) \<le> length ops"
      unfolding sw by linarith
    from n(2) have b: "?pass ((?pass ^^ Suc n) ops) = (?pass ^^ Suc n) ops"
      unfolding sw .
    from a b c show ?thesis by (intro exI[of _ "Suc n"]) blast
  qed
qed

section \<open>The claims\<close>

lemma reduce_loop_no_entry:
  "(class_of a, class_of b) \<notin> set (map (\<lambda>(ia, ib, om). (ia, ib)) tbl) \<Longrightarrow>
     reduce_loop tbl a b = None"
  by (induction tbl a b rule: reduce_loop.induct) (auto simp: isinstance_def)

text \<open>
  C6: for an AlterField and a RenameField on the same model (names compared after
  \<open>lower\<close>), where the altered field is the one the rename starts from, \<open>reduce\<close>
  returns the two operations in flipped order: the rename itself, then an AlterField
  of the same model under the new field name with the old field definition.
\<close>

theorem reduce_alter_field_rename_field_flips:
  "lower m1 = lower m2 \<Longrightarrow> lower n1 = lower o2 \<Longrightarrow>
     reduce (AlterField m1 n1 f) (RenameField m2 o2 n2)
       = Some [RenameField m2 o2 n2, AlterField m1 n2 f]"
  by (simp add: reduce_def submethods_def isinstance_def reduce_alter_field_rename_field_def)

theorem reduce_alter_field_rename_field_flips_witness:
  "reduce (AlterField ''Pony'' ''Age'' ''IntegerField'')
          (RenameField ''pony'' ''age'' ''years'' :: (string, unit) operation)
     = Some [RenameField ''pony'' ''age'' ''years'',
             AlterField ''Pony'' ''years'' ''IntegerField'']"
proof -
  have m: "lower ''Pony'' = lower ''pony''" by (simp add: lower_def lower_char_def)
  have n: "lower ''Age'' = lower ''age''" by (simp add: lower_def lower_char_def)
  show ?thesis by (rule reduce_alter_field_rename_field_flips[OF m n])
qed

text \<open>
  C7: the rule table is complete. When the pair of classes of two operations is not a
  pair of the table \<open>submethods\<close>, \<open>reduce\<close> returns \<open>None\<close>, whatever the attributes
  of the operations are; \<open>None\<close> is not the empty replacement list \<open>Some []\<close>, which
  \<open>reduce\<close> returns for a CreateModel and a DeleteModel of one model.
\<close>

theorem reduce_no_match_outside_table:
  fixes a b :: "('f, 'p) operation"
  assumes "(class_of a, class_of b) \<notin> set (map (\<lambda>(ia, ib, om). (ia, ib))
     (submethods :: (operation_class \<times> operation_class \<times>
        (('f, 'p) operation \<Rightarrow> ('f, 'p) operation \<Rightarrow> ('f, 'p) operation list option)) list))"
  shows "reduce a b = None \<and> reduce a b \<noteq> Some []
     \<and> reduce (CreateModel n fs opts bs :: ('f, 'p) operation) (DeleteModel n) = Some []"
proof -
  have "reduce a b = None"
    unfolding reduce_def using assms by (rule reduce_loop_no_entry)
  moreover have "reduce (CreateModel n fs opts bs :: ('f, 'p) operation) (DeleteModel n) = Some []"
    by (simp add: reduce_def submethods_def isinstance_def reduce_model_create_delete_def)
  ultimately show ?thesis by simp
qed

theorem reduce_no_match_outside_table_witness:
  "reduce (DeleteModel ''Pony'') (CreateModel ''Pony'' [(''age'', ''IntegerField'')] () [])
     = None
   \<and> reduce (RemoveField ''Pony'' ''age'')
        (AddField ''Pony'' ''age'' ''IntegerField'' :: (string, unit) operation) = None
   \<and> reduce (OtherOperation ()) (OtherOperation () :: (string, unit) operation) = None"
proof -
  have a: "reduce (DeleteModel ''Pony'')
       (CreateModel ''Pony'' [(''age'', ''IntegerField'')] () []) = None"
    using reduce_no_match_outside_table[of "DeleteModel ''Pony''"
        "CreateModel ''Pony'' [(''age'', ''IntegerField'')] () []" "''Pony''" "[]" "()" "[]"]
    by (simp add: submethods_def)
  have b: "reduce (RemoveField ''Pony'' ''age'')
        (AddField ''Pony'' ''age'' ''IntegerField'' :: (string, unit) operation) = None"
    using reduce_no_match_outside_table[of "RemoveField ''Pony'' ''age''"
        "AddField ''Pony'' ''age'' ''IntegerField''" "''Pony''" "[]" "()" "[]"]
    by (simp add: submethods_def)
  have c: "reduce (OtherOperation ()) (OtherOperation () :: (string, unit) operation) = None"
    using reduce_no_match_outside_table[of "OtherOperation () :: (string, unit) operation"
        "OtherOperation ()"
        "''Pony''" "[]" "()" "[]"]
    by (simp add: submethods_def)
  from a b c show ?thesis by simp
qed

text \<open>
  C9: for a CreateModel and an AlterField of the same model (names compared after
  \<open>lower\<close>), the fold matches also when no field of the CreateModel has the altered
  field's name: \<open>reduce\<close> returns the CreateModel alone, with its fields unchanged, and
  the AlterField is gone.
\<close>

theorem reduce_create_model_alter_field_missing:
  "lower nm = lower mn \<Longrightarrow> fn \<notin> fst ` set fs \<Longrightarrow>
     reduce (CreateModel nm fs opts bs) (AlterField mn fn fd)
       = Some [CreateModel nm fs opts bs]"
proof -
  assume a: "lower nm = lower mn" and b: "fn \<notin> fst ` set fs"
  have "map (\<lambda>(n, v). (n, if n = fn then fd else v)) fs = fs"
    using b by (intro map_idI) force
  with a show ?thesis
    by (simp add: reduce_def submethods_def isinstance_def reduce_create_model_alter_field_def
        cong del: if_weak_cong)
qed

theorem reduce_create_model_alter_field_missing_witness:
  "reduce (CreateModel ''Pony'' [(''name'', ''CharField'')] () [])
          (AlterField ''pony'' ''age'' ''IntegerField'')
     = Some [CreateModel ''Pony'' [(''name'', ''CharField'')] () []]"
proof -
  have m: "lower ''Pony'' = lower ''pony''" by (simp add: lower_def lower_char_def)
  have n: "''age'' \<notin> fst ` set [(''name'', ''CharField'')]" by simp
  show ?thesis by (rule reduce_create_model_alter_field_missing[OF m n])
qed

text \<open>
  C10: for a CreateModel and an AddField of the same model (names compared after
  \<open>lower\<close>), \<open>reduce\<close> returns the CreateModel with the added field's name and
  definition appended at the end of its fields. Nothing looks for a field of that name:
  when the fields already hold the name, also up to case, the new CreateModel holds it
  twice.
\<close>

theorem reduce_create_model_add_field_appends:
  "lower nm = lower mn \<Longrightarrow>
     reduce (CreateModel nm fs opts bs) (AddField mn fn fd)
       = Some [CreateModel nm (fs @ [(fn, fd)]) opts bs]
     \<and> (lower fn \<in> set (map (lower \<circ> fst) fs) \<longrightarrow>
          \<not> distinct (map (lower \<circ> fst) (fs @ [(fn, fd)])))"
  by (simp add: reduce_def submethods_def isinstance_def reduce_create_model_add_field_def)

theorem reduce_create_model_add_field_appends_witness:
  "reduce (CreateModel ''Pony'' [(''age'', ''IntegerField'')] () [])
          (AddField ''pony'' ''Age'' ''CharField'')
     = Some [CreateModel ''Pony'' [(''age'', ''IntegerField''), (''Age'', ''CharField'')] () []]
   \<and> \<not> distinct (map (lower \<circ> fst) [(''age'', ''IntegerField''), (''Age'', ''CharField'')])"
proof -
  have m: "lower ''Pony'' = lower ''pony''" by (simp add: lower_def lower_char_def)
  have n: "lower ''Age'' \<in> set (map (lower \<circ> fst) [(''age'', ''IntegerField'')])"
    by (simp add: lower_def lower_char_def)
  from reduce_create_model_add_field_appends[OF m, of "[(''age'', ''IntegerField'')]"
      "()" "[]" "''Age''" "''CharField''"] n
  show ?thesis by simp
qed

text \<open>
  C4: the name comparisons of the reduction rules go through \<open>lower\<close>, but for the
  two folds of a CreateModel with an AlterField and with a RenameField the field is
  looked up with plain equality. On a CreateModel \<open>Pony\<close> with the field \<open>Name\<close>, an
  AlterField and a RenameField of the field \<open>name\<close> of the model \<open>pony\<close> both fold
  and leave the field as it was, while the RemoveField of \<open>name\<close> removes it.
\<close>

theorem create_model_field_lookup_case_sensitive:
  "reduce (CreateModel ''Pony'' [(''Name'', f1)] opts bs) (AlterField ''pony'' ''name'' f2)
     = Some [CreateModel ''Pony'' [(''Name'', f1)] opts bs]
   \<and> reduce (CreateModel ''Pony'' [(''Name'', f1)] opts bs) (RenameField ''pony'' ''name'' ''title'')
     = Some [CreateModel ''Pony'' [(''Name'', f1)] opts bs]
   \<and> reduce (CreateModel ''Pony'' [(''Name'', f1)] opts bs) (RemoveField ''pony'' ''name'')
     = Some [CreateModel ''Pony'' [] opts bs]
   \<and> lower ''Name'' = lower ''name''"
  by (simp add: reduce_def submethods_def isinstance_def reduce_create_model_alter_field_def
      reduce_create_model_rename_field_def reduce_create_model_remove_field_def
      lower_def lower_char_def)

lemma scan_Matched_absolute:
  assumes "i < length ops"
    and "scan caps al (ops ! i) (drop (i + 1) ops) 0 = Matched j r"
  shows "i + 1 + j < length ops \<and> reduce (ops ! i) (ops ! (i + 1 + j)) = Some r
     \<and> (\<forall>k. i < k \<and> k < i + 1 + j \<longrightarrow> reduce (ops ! i) (ops ! k) = None
            \<and> can_optimize_through caps (ops ! i) (ops ! k) al)"
proof -
  from scan_Matched[OF assms(2)] have j: "j < length (drop (i + 1) ops)"
    and r: "reduce (ops ! i) (drop (i + 1) ops ! j) = Some r"
    and b: "\<forall>k < j. reduce (ops ! i) (drop (i + 1) ops ! k) = None
            \<and> can_optimize_through caps (ops ! i) (drop (i + 1) ops ! k) al"
    by auto
  from j have lt: "i + 1 + j < length ops" by simp
  have nth: "\<And>k. k \<le> j \<Longrightarrow> drop (i + 1) ops ! k = ops ! (i + 1 + k)"
    using lt by (intro nth_drop) simp
  have "reduce (ops ! i) (ops ! (i + 1 + j)) = Some r"
    using r nth[of j] by simp
  moreover have "\<forall>k. i < k \<and> k < i + 1 + j \<longrightarrow> reduce (ops ! i) (ops ! k) = None
            \<and> can_optimize_through caps (ops ! i) (ops ! k) al"
  proof (intro allI impI)
    fix k assume k: "i < k \<and> k < i + 1 + j"
    then have d: "k - (i + 1) < j" "i + 1 + (k - (i + 1)) = k" by auto
    from b d(1) have "reduce (ops ! i) (drop (i + 1) ops ! (k - (i + 1))) = None
        \<and> can_optimize_through caps (ops ! i) (drop (i + 1) ops ! (k - (i + 1))) al"
      by blast
    with nth[of "k - (i + 1)"] d
    show "reduce (ops ! i) (ops ! k) = None \<and> can_optimize_through caps (ops ! i) (ops ! k) al"
      by simp
  qed
  ultimately show ?thesis using lt by blast
qed

lemma reduce_OtherOperation: "reduce (OtherOperation p) b = None"
  unfolding reduce_def by (rule reduce_loop_no_entry) (simp add: submethods_def)

text \<open>
  C1: let \<open>(i, j)\<close> be the first pair at which a pass reduces: \<open>reduce\<close> matches at
  \<open>(i, j)\<close>, every operation strictly between \<open>i\<close> and \<open>j\<close> neither reduces with
  the operation at \<open>i\<close> nor stops the scan, and no position before \<open>i\<close> reaches a
  match in the same way. Then the pass returns the operations before \<open>i\<close>, the
  reduction result, the operations strictly between \<open>i\<close> and \<open>j\<close> and the operations
  after \<open>j\<close>, the last two unchanged and in order, whatever could still be reduced
  there.
\<close>

theorem optimize_inner_first_match:
  assumes "i < j" and "j < length ops"
    and "reduce (ops ! i) (ops ! j) = Some result"
    and "\<forall>k. i < k \<and> k < j \<longrightarrow> reduce (ops ! i) (ops ! k) = None
            \<and> can_optimize_through caps (ops ! i) (ops ! k) al"
    and "\<forall>i' j'. i' < i \<and> i' < j' \<and> j' < length ops
            \<and> (\<forall>k. i' < k \<and> k < j' \<longrightarrow> reduce (ops ! i') (ops ! k) = None
                  \<and> can_optimize_through caps (ops ! i') (ops ! k) al)
            \<longrightarrow> reduce (ops ! i') (ops ! j') = None"
  shows "optimize_inner caps ops al =
           take i ops @ result @ slice (i + 1) j ops @ drop (j + 1) ops"
proof -
  let ?d = "j - (i + 1)"
  have ij: "i + 1 + ?d = j" "i < length ops" using assms(1,2) by auto
  have nth: "\<And>k. k \<le> ?d \<Longrightarrow> drop (i + 1) ops ! k = ops ! (i + 1 + k)"
    using assms(1,2) by (intro nth_drop) simp
  have "scan caps al (ops ! i) (drop (i + 1) ops) 0 = Matched (0 + ?d) result"
  proof (rule scan_first_match)
    show "?d < length (drop (i + 1) ops)" using assms(1,2) by simp
    show "reduce (ops ! i) (drop (i + 1) ops ! ?d) = Some result"
      using nth[of ?d] ij assms(3) by simp
    show "\<forall>k < ?d. reduce (ops ! i) (drop (i + 1) ops ! k) = None
            \<and> can_optimize_through caps (ops ! i) (drop (i + 1) ops ! k) al"
    proof (intro allI impI)
      fix k assume k: "k < ?d"
      then have "i < i + 1 + k \<and> i + 1 + k < j" by auto
      with assms(4) have "reduce (ops ! i) (ops ! (i + 1 + k)) = None
            \<and> can_optimize_through caps (ops ! i) (ops ! (i + 1 + k)) al"
        by blast
      with nth[of k] k
      show "reduce (ops ! i) (drop (i + 1) ops ! k) = None
            \<and> can_optimize_through caps (ops ! i) (drop (i + 1) ops ! k) al"
        by simp
    qed
  qed
  then have sc: "scan caps al (ops ! i) (drop (i + 1) ops) 0 = Matched ?d result" by simp
  have none: "\<forall>k'. 0 \<le> k' \<and> k' < i \<longrightarrow>
           (\<forall>j' r'. scan caps al (ops ! k') (drop (k' + 1) ops) 0 \<noteq> Matched j' r')"
  proof (intro allI impI notI)
    fix k' j' r'
    assume k': "0 \<le> k' \<and> k' < i"
      and m: "scan caps al (ops ! k') (drop (k' + 1) ops) 0 = Matched j' r'"
    from k' ij have "k' < length ops" by simp
    note abs = scan_Matched_absolute[OF this m]
    from abs k' have "k' < i \<and> k' < k' + 1 + j' \<and> k' + 1 + j' < length ops
            \<and> (\<forall>k. k' < k \<and> k < k' + 1 + j' \<longrightarrow> reduce (ops ! k') (ops ! k) = None
                  \<and> can_optimize_through caps (ops ! k') (ops ! k) al)"
      by simp
    with assms(5) have "reduce (ops ! k') (ops ! (k' + 1 + j')) = None"
      by blast
    with abs show False by simp
  qed
  from inner_from_first[OF ij(2) sc none, of "[]"]
  have "optimize_inner caps ops al =
      slice 0 i ops @ result @ slice (i + 1) (i + 1 + ?d) ops @ drop (i + ?d + 2) ops"
    by (simp add: optimize_inner_def)
  moreover have "i + ?d + 2 = j + 1" using assms(1) by simp
  ultimately show ?thesis using ij(1) by (simp add: slice_def)
qed

theorem optimize_inner_first_match_witness:
  "optimize_inner
     (Capabilities
        (\<lambda>other n al. case other of AlterModelTable m _ \<Rightarrow> lower m = lower n | _ \<Rightarrow> True)
        (\<lambda>other m n al. True))
     [OtherOperation (), CreateModel ''Pony'' [] () [], AlterModelTable ''Other'' (),
      DeleteModel ''pony'', AddField ''M'' ''a'' ''IntegerField'', RemoveField ''m'' ''A'']
     None
   = [OtherOperation (), AlterModelTable ''Other'' (),
      AddField ''M'' ''a'' ''IntegerField'', RemoveField ''m'' ''A'']"
proof -
  let ?caps = "Capabilities
        (\<lambda>other n al. case other of AlterModelTable m _ \<Rightarrow> lower m = lower n | _ \<Rightarrow> True)
        (\<lambda>other m n al. True) :: (string, unit) capabilities"
  let ?ops = "[OtherOperation (), CreateModel ''Pony'' [] () [], AlterModelTable ''Other'' (),
      DeleteModel ''pony'', AddField ''M'' ''a'' ''IntegerField'', RemoveField ''m'' ''A'']
      :: (string, unit) operation list"
  have a: "(1::nat) < 3" by simp
  have b: "3 < length ?ops" by simp
  have c: "reduce (?ops ! 1) (?ops ! 3) = Some []"
    by (simp add: reduce_def submethods_def isinstance_def reduce_model_create_delete_def
        lower_def lower_char_def)
  have d: "\<forall>k. 1 < k \<and> k < 3 \<longrightarrow> reduce (?ops ! 1) (?ops ! k) = None
            \<and> can_optimize_through ?caps (?ops ! 1) (?ops ! k) None"
  proof (intro allI impI)
    fix k :: nat assume "1 < k \<and> k < 3"
    then have k: "k = 2" by arith
    show "reduce (?ops ! 1) (?ops ! k) = None
            \<and> can_optimize_through ?caps (?ops ! 1) (?ops ! k) None"
      unfolding k
      by (simp add: reduce_def submethods_def isinstance_def can_optimize_through_def
          isinstance_tuple_def MODEL_LEVEL_OPERATIONS_def lower_def lower_char_def)
  qed
  have e: "\<forall>i' j'. i' < 1 \<and> i' < j' \<and> j' < length ?ops
            \<and> (\<forall>k. i' < k \<and> k < j' \<longrightarrow> reduce (?ops ! i') (?ops ! k) = None
                  \<and> can_optimize_through ?caps (?ops ! i') (?ops ! k) None)
            \<longrightarrow> reduce (?ops ! i') (?ops ! j') = None"
    by (simp add: reduce_OtherOperation)
  from optimize_inner_first_match[OF a b c d e]
  show ?thesis by (simp add: slice_def)
qed

text \<open>
  C2: when \<open>optimize\<close> returns the list \<open>r\<close> on a list \<open>s\<close>, one more pass over
  \<open>r\<close> returns \<open>r\<close> itself, and \<open>optimize\<close> on \<open>r\<close> returns \<open>r\<close> again, after
  a single pass.
\<close>

theorem optimize_idempotent_fixpoint:
  assumes "optimize caps s al = Some (r, n)"
  shows "optimize_inner caps r al = r \<and> optimize caps r al = Some (r, 1)"
proof -
  from optimize_loop_total[of caps s al 0] assms
  have fp: "optimize_inner caps r al = r"
    by (auto simp: optimize_def)
  then have "optimize_loop caps r al 0 = Some (r, 1)"
    by (subst optimize_loop.simps) simp
  with fp show ?thesis by (simp add: optimize_def)
qed

theorem optimize_idempotent_fixpoint_witness:
  "optimize (Capabilities (\<lambda>other n al. True) (\<lambda>other m n al. True))
     [CreateModel ''Pony'' [(''name'', ''CharField'')] () [],
      AddField ''pony'' ''age'' ''IntegerField'', DeleteModel ''Other''] None
   = Some ([CreateModel ''Pony'' [(''name'', ''CharField''), (''age'', ''IntegerField'')] () [],
            DeleteModel ''Other''], 2)
   \<and> optimize_inner (Capabilities (\<lambda>other n al. True) (\<lambda>other m n al. True))
       [CreateModel ''Pony'' [(''name'', ''CharField''), (''age'', ''IntegerField'')] () [],
        DeleteModel ''Other''] None
     = [CreateModel ''Pony'' [(''name'', ''CharField''), (''age'', ''IntegerField'')] () [],
        DeleteModel ''Other'']
   \<and> optimize (Capabilities (\<lambda>other n al. True) (\<lambda>other m n al. True))
       [CreateModel ''Pony'' [(''name'', ''CharField''), (''age'', ''IntegerField'')] () [],
        DeleteModel ''Other''] None
     = Some ([CreateModel ''Pony'' [(''name'', ''CharField''), (''age'', ''IntegerField'')] () [],
              DeleteModel ''Other''], 1)"
proof -
  let ?caps = "Capabilities (\<lambda>other n al. True) (\<lambda>other m n al. True)
     :: (string, unit) capabilities"
  let ?s = "[CreateModel ''Pony'' [(''name'', ''CharField'')] () [],
      AddField ''pony'' ''age'' ''IntegerField'', DeleteModel ''Other'']
      :: (string, unit) operation list"
  let ?r = "[CreateModel ''Pony'' [(''name'', ''CharField''), (''age'', ''IntegerField'')] () [],
            DeleteModel ''Other''] :: (string, unit) operation list"
  have p1: "optimize_inner ?caps ?s None = ?r"
    by (simp add: optimize_inner_def reduce_def submethods_def isinstance_def
        reduce_create_model_add_field_def lower_def lower_char_def slice_def)
  have p2: "optimize_inner ?caps ?r None = ?r"
    by (simp add: optimize_inner_def reduce_def submethods_def isinstance_def
        reduce_model_create_delete_def can_optimize_through_def isinstance_tuple_def
        MODEL_LEVEL_OPERATIONS_def FIELD_LEVEL_OPERATIONS_def lower_def lower_char_def)
  have "optimize_loop ?caps ?r None 1 = Some (?r, 2)"
    by (subst optimize_loop.simps) (simp add: p2)
  then have h: "optimize ?caps ?s None = Some (?r, 2)"
    unfolding optimize_def by (subst optimize_loop.simps) (simp add: p1)
  from optimize_idempotent_fixpoint[OF h] h show ?thesis by simp
qed

text \<open>
  C3: a pass returns its input, or replaces one pair of operations by the result of
  \<open>reduce\<close> on that pair, a list of at most two operations; so the list a pass
  returns is never longer than its input, and neither is the list \<open>optimize\<close>
  returns.
\<close>

theorem optimize_length_non_increase:
  "length (optimize_inner caps s al) \<le> length s
   \<and> (optimize_inner caps s al = s
      \<or> (\<exists>i j rs. i < j \<and> j < length s \<and> reduce (s ! i) (s ! j) = Some rs \<and> length rs \<le> 2
            \<and> optimize_inner caps s al = take i s @ rs @ slice (i + 1) j s @ drop (j + 1) s))
   \<and> (\<forall>r n. optimize caps s al = Some (r, n) \<longrightarrow> length r \<le> length s)"
proof -
  have a: "length (optimize_inner caps s al) \<le> length s"
    using pass_decreases[of caps s al] by (cases "optimize_inner caps s al = s") auto
  have b: "optimize_inner caps s al = s
      \<or> (\<exists>i j rs. i < j \<and> j < length s \<and> reduce (s ! i) (s ! j) = Some rs \<and> length rs \<le> 2
            \<and> optimize_inner caps s al = take i s @ rs @ slice (i + 1) j s @ drop (j + 1) s)"
    using inner_from_shape[of caps s al 0 "[]"] reduce_two
    by (fastforce simp: optimize_inner_def slice_def)
  have c: "\<forall>r n. optimize caps s al = Some (r, n) \<longrightarrow> length r \<le> length s"
    using optimize_loop_total[of caps s al 0] by (auto simp: optimize_def)
  from a b c show ?thesis by blast
qed

theorem optimize_length_non_increase_witness:
  "optimize (Capabilities (\<lambda>other n al. True) (\<lambda>other m n al. True))
     [CreateModel ''Pony'' [] () [], DeleteModel ''pony'' :: (string, unit) operation] None
     = Some ([], 2)
   \<and> length (optimize_inner (Capabilities (\<lambda>other n al. True) (\<lambda>other m n al. True))
       [CreateModel ''Pony'' [] () [], DeleteModel ''pony'' :: (string, unit) operation] None)
      \<le> 2
   \<and> length ([] :: (string, unit) operation list)
      \<le> length [CreateModel ''Pony'' [] () [], DeleteModel ''pony'' :: (string, unit) operation]"
proof -
  let ?caps = "Capabilities (\<lambda>other n al. True) (\<lambda>other m n al. True)
     :: (string, unit) capabilities"
  let ?s = "[CreateModel ''Pony'' [] () [], DeleteModel ''pony''] :: (string, unit) operation list"
  have p1: "optimize_inner ?caps ?s None = []"
    by (simp add: optimize_inner_def reduce_def submethods_def isinstance_def
        reduce_model_create_delete_def lower_def lower_char_def slice_def)
  have p2: "optimize_inner ?caps [] None = []"
    by (simp add: optimize_inner_def)
  have "optimize_loop ?caps [] None 1 = Some ([], 2)"
    by (subst optimize_loop.simps) (simp add: p2)
  then have h: "optimize ?caps ?s None = Some ([], 2)"
    unfolding optimize_def by (subst optimize_loop.simps) (simp add: p1)
  from optimize_length_non_increase[of ?caps ?s None] h show ?thesis by simp
qed

text \<open>
  C5: on a CreateModel of \<open>Pony\<close>, an AlterField of the field \<open>fk\<close> of \<open>Other\<close> and
  a DeleteModel of \<open>Pony\<close>, where the AlterField answers \<open>references_model\<close> for
  \<open>Pony\<close> with true, \<open>optimize\<close> returns the three operations unchanged, after one
  pass: the CreateModel cannot be optimized through the AlterField, so it never meets
  the DeleteModel.
\<close>

theorem optimize_barrier_keeps_all_three:
  assumes "references_model caps (AlterField ''Other'' ''fk'' fk) ''Pony'' app_label"
  shows "optimize caps
           [CreateModel ''Pony'' fs opts bs, AlterField ''Other'' ''fk'' fk, DeleteModel ''Pony'']
           app_label
         = Some ([CreateModel ''Pony'' fs opts bs, AlterField ''Other'' ''fk'' fk,
                  DeleteModel ''Pony''], 1)
       \<and> \<not> can_optimize_through caps (CreateModel ''Pony'' fs opts bs)
             (AlterField ''Other'' ''fk'' fk) app_label"
proof -
  let ?ops = "[CreateModel ''Pony'' fs opts bs, AlterField ''Other'' ''fk'' fk,
     DeleteModel ''Pony'']"
  have r1: "reduce (CreateModel ''Pony'' fs opts bs) (AlterField ''Other'' ''fk'' fk) = None"
    by (simp add: reduce_def submethods_def isinstance_def reduce_create_model_alter_field_def
        lower_def lower_char_def)
  have t1: "\<not> can_optimize_through caps (CreateModel ''Pony'' fs opts bs)
             (AlterField ''Other'' ''fk'' fk) app_label"
    using assms
    by (simp add: can_optimize_through_def isinstance_tuple_def MODEL_LEVEL_OPERATIONS_def
        FIELD_LEVEL_OPERATIONS_def)
  have r2: "reduce (AlterField ''Other'' ''fk'' fk) (DeleteModel ''Pony'') = None"
    by (simp add: reduce_def submethods_def isinstance_def)
  have p: "optimize_inner caps ?ops app_label = ?ops"
    by (cases "can_optimize_through caps (AlterField ''Other'' ''fk'' fk)
          (DeleteModel ''Pony'') app_label")
       (simp_all add: optimize_inner_def r1 r2 t1)
  then have "optimize_loop caps ?ops app_label 0 = Some (?ops, 1)"
    by (subst optimize_loop.simps) simp
  with t1 show ?thesis by (simp add: optimize_def)
qed

theorem optimize_barrier_keeps_all_three_witness:
  "optimize (Capabilities (\<lambda>other n al. True) (\<lambda>other m n al. True))
     [CreateModel ''Pony'' [(''name'', ''CharField'')] () [],
      AlterField ''Other'' ''fk'' ''ForeignKey(to=Pony)'', DeleteModel ''Pony''] None
   = Some ([CreateModel ''Pony'' [(''name'', ''CharField'')] () [],
            AlterField ''Other'' ''fk'' ''ForeignKey(to=Pony)'', DeleteModel ''Pony''], 1)"
proof -
  have h: "references_model (Capabilities (\<lambda>other n al. True) (\<lambda>other m n al. True))
      (AlterField ''Other'' ''fk'' ''ForeignKey(to=Pony)'' :: (string, unit) operation)
      ''Pony'' None"
    by simp
  from optimize_barrier_keeps_all_three[OF h] show ?thesis by simp
qed

text \<open>
  C8: \<open>optimize\<close> returns on every list of operations. Some number \<open>n\<close> of passes
  leads from the input to a list that one more pass leaves as it is; \<open>optimize\<close>
  returns this list, and has counted \<open>n + 1\<close> passes.
\<close>

theorem optimize_terminates:
  "\<exists>n. optimize caps s al = Some (((\<lambda>xs. optimize_inner caps xs al) ^^ n) s, Suc n)
     \<and> optimize_inner caps (((\<lambda>xs. optimize_inner caps xs al) ^^ n) s) al
          = ((\<lambda>xs. optimize_inner caps xs al) ^^ n) s"
  using optimize_loop_total[of caps s al 0] by (auto simp: optimize_def)

end
